theory Spec2Isabelle
  imports Main "HOL-Library.AList"
begin

section \<open>Shared data: JavaScript maps, header values, errors\<close>

text \<open>
  The two caches of the library are module-level \<^verbatim>\<open>Map<string, ...>\<close> objects. A JavaScript
  Map keeps its keys in insertion order, \<^verbatim>\<open>set\<close> on a present key overwrites in place and
  \<^verbatim>\<open>set\<close> on an absent key appends: an association list with \<open>AList.update\<close>.
  Numbers (timestamps, counters, status codes) are modelled as \<open>int\<close>.
\<close>

type_synonym ('k, 'v) js_map = "('k \<times> 'v) list"

definition map_get :: "('k, 'v) js_map \<Rightarrow> 'k \<Rightarrow> 'v option" where
  "map_get m k = map_of m k"

definition map_set :: "'k \<Rightarrow> 'v \<Rightarrow> ('k, 'v) js_map \<Rightarrow> ('k, 'v) js_map" where
  "map_set k v m = AList.update k v m"

definition map_delete :: "'k \<Rightarrow> ('k, 'v) js_map \<Rightarrow> ('k, 'v) js_map" where
  "map_delete k m = AList.delete k m"

definition map_keys :: "('k, 'v) js_map \<Rightarrow> 'k list" where
  "map_keys m = map fst m"

text \<open>A header value as Node hands it out: a string, a number or a list of strings.\<close>

datatype header_value = HStr string | HNum int | HList "string list"

text \<open>\<^verbatim>\<open>Array.prototype.toString\<close> joins with commas.\<close>

fun join_comma :: "string list \<Rightarrow> string" where
  "join_comma [] = []"
| "join_comma [s] = s"
| "join_comma (s # t # ss) = s @ '','' @ join_comma (t # ss)"

definition digit_char :: "nat \<Rightarrow> char" where
  "digit_char d = ''0123456789'' ! (d mod 10)"

function show_nat :: "nat \<Rightarrow> string" where
  "show_nat n = (if n < 10 then [digit_char n] else show_nat (n div 10) @ [digit_char (n mod 10)])"
  by pat_completeness auto
termination
  by (relation "measure id") auto

definition show_int :: "int \<Rightarrow> string" where
  "show_int i = (if i < 0 then CHR ''-'' # show_nat (nat (- i)) else show_nat (nat i))"

fun hv_toString :: "header_value \<Rightarrow> string" where
  "hv_toString (HStr s) = s"
| "hv_toString (HNum n) = show_int n"
| "hv_toString (HList ss) = join_comma ss"

text \<open>ASCII case mapping, enough for header names and HTTP method names.\<close>

definition upper_char :: "char \<Rightarrow> char" where
  "upper_char c =
     (case map_of (zip ''abcdefghijklmnopqrstuvwxyz'' ''ABCDEFGHIJKLMNOPQRSTUVWXYZ'') c of
        Some u \<Rightarrow> u | None \<Rightarrow> c)"


definition toUpperCase :: "string \<Rightarrow> string" where
  "toUpperCase s = map upper_char s"


text \<open>\<^verbatim>\<open>src/types/api.ts\<close>, \<^verbatim>\<open>src/errors/AppError.ts\<close>.\<close>

datatype ErrorCode =
  VALIDATION_ERROR | UNAUTHORIZED | FORBIDDEN | NOT_FOUND | CONFLICT | INTERNAL_ERROR

text \<open>
  The \<^verbatim>\<open>details\<close> of an AppError are either absent or one of the two object shapes the
  library builds: \<^verbatim>\<open>{url, status}\<close> and \<^verbatim>\<open>{url, originalError}\<close>.
\<close>

datatype details = UrlStatus string int | UrlOriginalError string string

record AppError =
  code :: ErrorCode
  message :: string
  status :: int
  details :: "details option"

definition new_AppError :: "ErrorCode \<Rightarrow> string \<Rightarrow> int \<Rightarrow> details option \<Rightarrow> AppError" where
  "new_AppError c m s d = \<lparr>code = c, message = m, status = s, details = d\<rparr>"

text \<open>
  Any other thrown JavaScript value, seen through the properties the library reads:
  \<^verbatim>\<open>code\<close>, \<^verbatim>\<open>name\<close>, \<^verbatim>\<open>message\<close> (\<open>None\<close> when absent or not a string), \<^verbatim>\<open>status\<close>
  (\<open>None\<close> when absent or not a number) and \<^verbatim>\<open>data\<close>.
\<close>

record 'd js_error =
  err_code :: "string option"
  err_name :: "string option"
  err_message :: "string option"
  err_status :: "int option"
  err_data :: "'d option"

text \<open>
  The Express request, with the fields the middlewares read. \<^verbatim>\<open>headers\<close> is Node's header
  object (names in lower case).
\<close>

record Request =
  req_method :: string
  req_ip :: "string option"
  req_headers :: "(string \<times> header_value) list"


section \<open>Rate limiter (\<^verbatim>\<open>src/middlewares/rateLimit.middleware.ts\<close>)\<close>

record Entry =
  count :: int
  expiresAt :: int

type_synonym rl_store = "(string, Entry) js_map"

record RateLimitOptions =
  opt_windowMs :: "int option"
  opt_max :: "int option"
  opt_keyGenerator :: "(Request \<Rightarrow> unit js_error + string) option"
  opt_message :: "string option"

definition cleanupIfExpired :: "string \<Rightarrow> int \<Rightarrow> rl_store \<Rightarrow> rl_store" where
  "cleanupIfExpired key now store =
     (case map_get store key of
        Some entry \<Rightarrow> if expiresAt entry \<le> now then map_delete key store else store
      | None \<Rightarrow> store)"

text \<open>
  \<^verbatim>\<open>for (const key of store.keys()) cleanupIfExpired(key, now)\<close>: each step deletes at most
  the key being visited, so the live iterator visits the keys present at the start, in order.
\<close>

definition cleanupRateLimitCache :: "int \<Rightarrow> rl_store \<Rightarrow> rl_store" where
  "cleanupRateLimitCache now store =
     fold (\<lambda>key s. cleanupIfExpired key now s) (map_keys store) store"

text \<open>
  The default key generator:
  \<^verbatim>\<open>req.ip || req.headers["x-forwarded-for"]?.toString() || "unknown"\<close>;
  the empty string is falsy.
\<close>

definition defaultKeyGenerator :: "Request \<Rightarrow> unit js_error + string" where
  "defaultKeyGenerator req =
     (let fwd = (case map_of (req_headers req) ''x-forwarded-for'' of
                   Some hv \<Rightarrow> (if hv_toString hv \<noteq> [] then hv_toString hv else ''unknown'')
                 | None \<Rightarrow> ''unknown'')
      in case req_ip req of
           Some a \<Rightarrow> Inr (if a \<noteq> [] then a else fwd)
         | None \<Rightarrow> Inr fwd)"

definition windowMs_of :: "RateLimitOptions \<Rightarrow> int" where
  "windowMs_of options = (case opt_windowMs options of Some w \<Rightarrow> w | None \<Rightarrow> 60000)"

definition max_of :: "RateLimitOptions \<Rightarrow> int" where
  "max_of options = (case opt_max options of Some m \<Rightarrow> m | None \<Rightarrow> 10)"

definition keyGenerator_of :: "RateLimitOptions \<Rightarrow> Request \<Rightarrow> unit js_error + string" where
  "keyGenerator_of options =
     (case opt_keyGenerator options of Some g \<Rightarrow> g | None \<Rightarrow> defaultKeyGenerator)"

definition message_of :: "RateLimitOptions \<Rightarrow> string" where
  "message_of options = (case opt_message options of Some m \<Rightarrow> m | None \<Rightarrow> ''Too many requests'')"

text \<open>
  What one run of the middleware does besides changing the store: an exception leaves the
  function (\<open>Threw\<close>), or \<^verbatim>\<open>next()\<close> is called (\<open>Next\<close>, the request is allowed), or
  \<^verbatim>\<open>next(err)\<close> is called (\<open>NextErr\<close>, the request is denied).
\<close>

datatype rl_outcome = Threw "unit js_error" | Next | NextErr AppError

text \<open>
  The middleware returned by \<^verbatim>\<open>rateLimit(options)\<close>, on the store \<open>store\<close>, when
  \<^verbatim>\<open>Date.now()\<close> reads \<open>now\<close>.
\<close>

definition rateLimit ::
  "RateLimitOptions \<Rightarrow> rl_store \<Rightarrow> int \<Rightarrow> Request \<Rightarrow> rl_store \<times> rl_outcome" where
  "rateLimit options store now req =
     (case keyGenerator_of options req of
        Inl e \<Rightarrow> (store, Threw e)
      | Inr key \<Rightarrow>
          (let store1 = cleanupIfExpired key now store in
           case map_get store1 key of
             None \<Rightarrow>
               (map_set key \<lparr>count = 1, expiresAt = now + windowMs_of options\<rparr> store1, Next)
           | Some entry \<Rightarrow>
               if count entry \<ge> max_of options
               then (store1, NextErr (new_AppError FORBIDDEN (message_of options) 429 None))
               else (map_set key (entry\<lparr>count := count entry + 1\<rparr>) store1, Next)))"

text \<open>A sequence of checks, each with its own clock reading, run one after the other.\<close>

fun checks ::
  "RateLimitOptions \<Rightarrow> rl_store \<Rightarrow> (int \<times> Request) list \<Rightarrow> rl_store \<times> rl_outcome list" where
  "checks options store [] = (store, [])"
| "checks options store ((now, req) # rest) =
     (let (store1, out) = rateLimit options store now req;
          (store2, outs) = checks options store1 rest
      in (store2, out # outs))"

definition denial :: "RateLimitOptions \<Rightarrow> rl_outcome" where
  "denial options = NextErr (new_AppError FORBIDDEN (message_of options) 429 None)"

section \<open>Idempotency guard (\<^verbatim>\<open>idempotencyMiddleware\<close>)\<close>

text \<open>
  The module \<^verbatim>\<open>middlewares/idempotency.middleware\<close>, which the sweep and the tests import;
  its text follows that of \<^verbatim>\<open>permission.middleware.ts\<close> in the source tree.
\<close>

record 'b CachedResponse =
  c_status :: int
  c_headers :: "(string \<times> string) list"
  c_body :: 'b
  c_expiresAt :: int

type_synonym 'b idem_cache = "(string, 'b CachedResponse) js_map"



definition cleanIfExpired :: "string \<Rightarrow> int \<Rightarrow> 'b idem_cache \<Rightarrow> 'b idem_cache" where
  "cleanIfExpired key now cache =
     (case map_get cache key of
        Some cached \<Rightarrow> if c_expiresAt cached \<le> now then map_delete key cache else cache
      | None \<Rightarrow> cache)"

definition cleanupIdempotencyCache :: "int \<Rightarrow> 'b idem_cache \<Rightarrow> 'b idem_cache" where
  "cleanupIdempotencyCache now cache =
     fold (\<lambda>key c. cleanIfExpired key now c) (map_keys cache) cache"












section \<open>Periodic sweep (\<^verbatim>\<open>src/utils/cacheCleanup.ts\<close>)\<close>

text \<open>
  The two clocks of the process: \<^verbatim>\<open>Date.now()\<close>, milliseconds since the epoch, and
  \<^verbatim>\<open>process.hrtime.bigint()\<close>, nanoseconds on the monotonic clock. The middlewares above take
  their \<open>now\<close> from the first; \<^verbatim>\<open>cleanupExpiredEntries\<close> takes its own from the second.
\<close>

record clocks =
  Date_now :: int
  hrtime_bigint :: nat

definition cleanupExpiredEntries ::
  "clocks \<Rightarrow> rl_store \<times> 'b idem_cache \<Rightarrow> rl_store \<times> 'b idem_cache" where
  "cleanupExpiredEntries clk caches =
     (let now = int (hrtime_bigint clk div 1000000)
      in (cleanupRateLimitCache now (fst caches), cleanupIdempotencyCache now (snd caches)))"

section \<open>Complete requests through the idempotency guard\<close>





section \<open>Resilient HTTP client (\<^verbatim>\<open>src/http/client.ts\<close>)\<close>

text \<open>
  The options of a call that steer the retry loop, with the defaults of the destructuring
  assignment. The \<^verbatim>\<open>body\<close> option is seen through what the call does with it at line 91,
  \<^verbatim>\<open>body ? JSON.stringify(body) : undefined\<close>: \<open>None\<close> when it is absent or falsy,
  else what \<^verbatim>\<open>JSON.stringify(body)\<close> gives, the text or the exception it throws (a cyclic
  object, a BigInt). The header options only shape the arguments handed to \<^verbatim>\<open>fetch\<close>,
  which are the same at every attempt.
\<close>

record 'd HttpClientOptions =
  opt_timeout :: "int option"
  opt_retries :: "int option"
  opt_retryDelay :: "int option"
  opt_body :: "('d js_error + string) option"

definition DEFAULT_TIMEOUT :: int where "DEFAULT_TIMEOUT = 10000"
definition DEFAULT_RETRIES :: int where "DEFAULT_RETRIES = 2"
definition DEFAULT_RETRY_DELAY :: int where "DEFAULT_RETRY_DELAY = 1000"

definition timeout_of :: "'d HttpClientOptions \<Rightarrow> int" where
  "timeout_of options = (case opt_timeout options of Some t \<Rightarrow> t | None \<Rightarrow> DEFAULT_TIMEOUT)"

definition retries_of :: "'d HttpClientOptions \<Rightarrow> int" where
  "retries_of options = (case opt_retries options of Some r \<Rightarrow> r | None \<Rightarrow> DEFAULT_RETRIES)"

definition retryDelay_of :: "'d HttpClientOptions \<Rightarrow> int" where
  "retryDelay_of options =
     (case opt_retryDelay options of Some d \<Rightarrow> d | None \<Rightarrow> DEFAULT_RETRY_DELAY)"

record 'd HttpClientResponse =
  r_data :: 'd
  r_status :: int
  r_headers :: "(string \<times> string) list"

text \<open>
  The response object \<^verbatim>\<open>fetch\<close> resolves to, as the client observes it: \<^verbatim>\<open>ok\<close>,
  \<^verbatim>\<open>status\<close>, \<^verbatim>\<open>statusText\<close>, the headers (names in lower case) and what awaiting
  \<^verbatim>\<open>json()\<close> and \<^verbatim>\<open>text()\<close> gives: the body, or an exception.
\<close>

record 'd fetch_response =
  resp_ok :: bool
  resp_status :: int
  resp_statusText :: string
  resp_headers :: "(string \<times> string) list"
  resp_json :: "'d js_error + 'd"
  resp_text :: "'d js_error + 'd"

text \<open>
  The network layer. \<open>net attempt\<close> is what awaiting \<^verbatim>\<open>fetch(url, {..., signal})\<close> gives at
  that attempt: a response, or an exception. The timeout timer aborting the call is one of
  the exceptions (name \<^verbatim>\<open>AbortError\<close>).
\<close>

datatype 'd fetch_outcome = Resolves "'d fetch_response" | Rejects "'d js_error"

datatype 'd thrown = AppErr AppError | JsErr "'d js_error"

datatype 'd result = Returned "'d HttpClientResponse" | Raised "'d thrown"

text \<open>What a call does that the outside can see: invocations of \<^verbatim>\<open>fetch\<close> and sleeps.\<close>

datatype event = Fetch int | Sleep int

definition isRetryableMethod :: "string \<Rightarrow> bool" where
  "isRetryableMethod method = (toUpperCase method \<in> set [''GET'', ''HEAD'', ''OPTIONS''])"

definition isRetryableError :: "'d js_error \<Rightarrow> bool" where
  "isRetryableError err =
     (err_code err = Some ''ECONNREFUSED'' \<or>
      err_code err = Some ''ENOTFOUND'' \<or>
      err_code err = Some ''ETIMEDOUT'' \<or>
      err_name err = Some ''AbortError'' \<or>
      (case err_status err of Some s \<Rightarrow> s \<ge> 500 \<and> s \<noteq> 501 | None \<Rightarrow> False))"

definition shouldRetry_of :: "string \<Rightarrow> bool" where
  "shouldRetry_of method = isRetryableMethod method"

definition maxAttempts_of :: "string \<Rightarrow> 'd HttpClientOptions \<Rightarrow> int" where
  "maxAttempts_of method options = (if shouldRetry_of method then retries_of options + 1 else 1)"

text \<open>\<^verbatim>\<open>String.prototype.includes\<close>.\<close>

fun starts_with :: "string \<Rightarrow> string \<Rightarrow> bool" where
  "starts_with s [] = True"
| "starts_with [] (c # cs) = False"
| "starts_with (x # xs) (c # cs) = (x = c \<and> starts_with xs cs)"

fun str_includes :: "string \<Rightarrow> string \<Rightarrow> bool" where
  "str_includes [] sub = (sub = [])"
| "str_includes (x # xs) sub = (starts_with (x # xs) sub \<or> str_includes xs sub)"

text \<open>Lines 102-108: the body is read as JSON when the content type says so, else as text.\<close>

definition read_body :: "'d fetch_response \<Rightarrow> 'd js_error + 'd" where
  "read_body response =
     (case map_of (resp_headers response) ''content-type'' of
        Some contentType \<Rightarrow>
          if str_includes contentType ''application/json'' then resp_json response
          else resp_text response
      | None \<Rightarrow> resp_text response)"

text \<open>
  One pass through the loop body either leaves the function (\<open>Done\<close>) or sleeps and goes
  on to the next attempt (\<open>Continue\<close>, with the value of \<^verbatim>\<open>lastError\<close> and the delay).
\<close>

datatype 'd step = Continue "'d thrown option" int | Done "'d result"

text \<open>The \<^verbatim>\<open>catch\<close> block, lines 137-162.\<close>

definition catch_block ::
  "string \<Rightarrow> string \<Rightarrow> 'd HttpClientOptions \<Rightarrow> int \<Rightarrow> 'd thrown \<Rightarrow> 'd step" where
  "catch_block method url options attempt error =
     (case error of
        AppErr a \<Rightarrow> Done (Raised (AppErr a))
      | JsErr err \<Rightarrow>
          if shouldRetry_of method \<and> attempt < maxAttempts_of method options
             \<and> isRetryableError err
          then Continue (Some error) (retryDelay_of options * attempt)
          else if err_code err = Some ''ECONNREFUSED'' \<or> err_code err = Some ''ENOTFOUND''
                  \<or> err_name err = Some ''AbortError''
          then
            (let errorMessage = (case err_message err of Some m \<Rightarrow> m | None \<Rightarrow> ''Unknown error'')
             in Done (Raised (AppErr (new_AppError INTERNAL_ERROR
                  ''Service unavailable or timed out'' 503
                  (Some (UrlOriginalError url errorMessage))))))
          else Done (Raised error))"

text \<open>
  Lines 84-95 of the \<^verbatim>\<open>try\<close> block: the arguments of \<^verbatim>\<open>fetch\<close> are evaluated, then
  \<^verbatim>\<open>fetch\<close> is called and awaited. When \<^verbatim>\<open>JSON.stringify(body)\<close> throws, \<^verbatim>\<open>fetch\<close> is
  not called and that exception is what the block ends in. The result is the events of the
  attempt and the response or exception the rest of the block goes on with.
\<close>

definition await_fetch ::
  "'d HttpClientOptions \<Rightarrow> (int \<Rightarrow> 'd fetch_outcome) \<Rightarrow> int
     \<Rightarrow> event list \<times> 'd fetch_outcome" where
  "await_fetch options net attempt =
     (case opt_body options of
        Some (Inl e) \<Rightarrow> ([], Rejects e)
      | _ \<Rightarrow> ([Fetch attempt], net attempt))"

text \<open>The \<^verbatim>\<open>try\<close> block, lines 83-136, with every exception handed to the \<^verbatim>\<open>catch\<close> block.\<close>

definition attempt_step ::
  "string \<Rightarrow> string \<Rightarrow> 'd HttpClientOptions \<Rightarrow> (int \<Rightarrow> 'd fetch_outcome) \<Rightarrow> int \<Rightarrow> 'd step" where
  "attempt_step method url options net attempt =
     (case snd (await_fetch options net attempt) of
        Rejects e \<Rightarrow> catch_block method url options attempt (JsErr e)
      | Resolves response \<Rightarrow>
          (case read_body response of
             Inl e \<Rightarrow> catch_block method url options attempt (JsErr e)
           | Inr data \<Rightarrow>
               if \<not> resp_ok response then
                 (let error = \<lparr>err_code = None, err_name = Some ''Error'',
                               err_message = Some (''HTTP '' @ show_int (resp_status response)
                                                   @ '': '' @ resp_statusText response),
                               err_status = Some (resp_status response),
                               err_data = Some data\<rparr>
                  in if shouldRetry_of method \<and> attempt < maxAttempts_of method options
                        \<and> isRetryableError error
                     then Continue (Some (JsErr error)) (retryDelay_of options * attempt)
                     else if resp_status response \<ge> 500
                     then catch_block method url options attempt
                            (AppErr (new_AppError INTERNAL_ERROR
                               (''Dependency service failed: '' @ resp_statusText response) 503
                               (Some (UrlStatus url (resp_status response)))))
                     else catch_block method url options attempt (JsErr error))
               else Done (Returned \<lparr>r_data = data, r_status = resp_status response,
                                    r_headers = resp_headers response\<rparr>)))"

definition thrown_message :: "'d thrown \<Rightarrow> string option" where
  "thrown_message t = (case t of AppErr a \<Rightarrow> Some (message a) | JsErr e \<Rightarrow> err_message e)"

text \<open>
  The loop \<^verbatim>\<open>for (attempt = 1; attempt <= maxAttempts; attempt++)\<close> over the attempts still to
  make, and the code after it (lines 164-174) once none is left.
\<close>

fun attempts_loop ::
  "string \<Rightarrow> string \<Rightarrow> 'd HttpClientOptions \<Rightarrow> (int \<Rightarrow> 'd fetch_outcome) \<Rightarrow> int list
     \<Rightarrow> 'd thrown option \<Rightarrow> event list \<times> 'd result" where
  "attempts_loop method url options net [] lastError =
     (let errorMsg = (case lastError of
                        Some t \<Rightarrow> (case thrown_message t of Some m \<Rightarrow> m
                                   | None \<Rightarrow> ''Unknown error'')
                      | None \<Rightarrow> ''Unknown error'')
      in ([], Raised (AppErr (new_AppError INTERNAL_ERROR
                (''Request failed after '' @ show_int (maxAttempts_of method options)
                 @ '' attempts'') 503
                (Some (UrlOriginalError url errorMsg))))))"
| "attempts_loop method url options net (attempt # rest) lastError =
     (case attempt_step method url options net attempt of
        Continue lastError' ms \<Rightarrow>
          (let (trace, res) = attempts_loop method url options net rest lastError'
           in (fst (await_fetch options net attempt) @ Sleep ms # trace, res))
      | Done res \<Rightarrow> (fst (await_fetch options net attempt), res))"

definition httpRequest ::
  "string \<Rightarrow> string \<Rightarrow> 'd HttpClientOptions \<Rightarrow> (int \<Rightarrow> 'd fetch_outcome)
     \<Rightarrow> event list \<times> 'd result" where
  "httpRequest method url options net =
     attempts_loop method url options net [1..maxAttempts_of method options] None"



definition backoff_schedule :: "int \<Rightarrow> int \<Rightarrow> event list" where
  "backoff_schedule retryDelay k =
     (if k < 1 then []
      else concat (map (\<lambda>attempt. [Fetch attempt, Sleep (retryDelay * attempt)]) [1..k - 1])
           @ [Fetch k])"

fun retried :: "'d step \<Rightarrow> bool" where
  "retried (Continue lastError ms) = True"
| "retried (Done res) = False"

section \<open>Concrete inputs used by the worked examples\<close>




definition req_a :: Request where
  "req_a = \<lparr>req_method = ''GET'', req_ip = Some ''10.0.0.1'', req_headers = []\<rparr>"

definition req_b :: Request where
  "req_b = \<lparr>req_method = ''GET'', req_ip = Some ''10.0.0.2'', req_headers = []\<rparr>"

definition failingKeyGenerator :: "Request \<Rightarrow> unit js_error + string" where
  "failingKeyGenerator req =
     Inl \<lparr>err_code = None, err_name = Some ''Error'',
          err_message = Some ''Key generation failed'', err_status = None, err_data = None\<rparr>"






definition err_refused :: "string js_error" where
  "err_refused = \<lparr>err_code = Some ''ECONNREFUSED'', err_name = Some ''Error'',
                  err_message = Some ''connect ECONNREFUSED 127.0.0.1:8080'',
                  err_status = None, err_data = None\<rparr>"

definition net_refused :: "int \<Rightarrow> string fetch_outcome" where
  "net_refused attempt = Rejects err_refused"

definition err_timedout :: "string js_error" where
  "err_timedout = \<lparr>err_code = Some ''ETIMEDOUT'', err_name = Some ''Error'',
                   err_message = Some ''connect ETIMEDOUT 10.0.0.9:443'',
                   err_status = None, err_data = None\<rparr>"

definition net_timedout :: "int \<Rightarrow> string fetch_outcome" where
  "net_timedout attempt = Rejects err_timedout"






section \<open>Properties\<close>

lemma map_get_set_same: "map_get (map_set k v m) k = Some v"
  by (simp add: map_get_def map_set_def update_conv')

lemma map_get_set_other: "k' \<noteq> k \<Longrightarrow> map_get (map_set k v m) k' = map_get m k'"
  by (simp add: map_get_def map_set_def update_conv')

lemma map_get_delete: "map_get (map_delete k m) k' = (if k' = k then None else map_get m k')"
  by (simp add: map_get_def map_delete_def delete_conv')

lemma cleanupIfExpired_get:
  "map_get (cleanupIfExpired key now s) k =
     (case map_get s k of
        None \<Rightarrow> None
      | Some e \<Rightarrow> if k = key \<and> expiresAt e \<le> now then None else Some e)"
  by (auto simp: cleanupIfExpired_def map_get_delete split: option.splits)

lemma sweep_rl_get_aux:
  "map_get (fold (\<lambda>key s. cleanupIfExpired key now s) ks s) k =
     (case map_get s k of
        None \<Rightarrow> None
      | Some e \<Rightarrow> if k \<in> set ks \<and> expiresAt e \<le> now then None else Some e)"
proof (induction ks arbitrary: s)
  case Nil
  then show ?case by (simp split: option.splits)
next
  case (Cons a ks)
  show ?case
    by (simp add: Cons.IH cleanupIfExpired_get split: option.splits)
qed

lemma map_get_Some_keys: "map_get s k = Some e \<Longrightarrow> k \<in> set (map_keys s)"
  by (metis map_get_def map_keys_def map_of_SomeD set_map image_eqI fst_conv)

lemma sweep_rl_get:
  "map_get (cleanupRateLimitCache now s) k =
     (case map_get s k of
        None \<Rightarrow> None
      | Some e \<Rightarrow> if expiresAt e \<le> now then None else Some e)"
  by (auto simp: cleanupRateLimitCache_def sweep_rl_get_aux dest: map_get_Some_keys split: option.splits)

lemma cleanupIfExpired_noop:
  "(\<And>e. map_get s key = Some e \<Longrightarrow> now < expiresAt e) \<Longrightarrow> cleanupIfExpired key now s = s"
  by (auto simp: cleanupIfExpired_def split: option.splits)

lemma sweep_rl_noop_aux:
  "(\<And>k e. map_get s k = Some e \<Longrightarrow> now < expiresAt e) \<Longrightarrow>
   fold (\<lambda>key s. cleanupIfExpired key now s) ks s = s"
  by (induction ks) (simp_all add: cleanupIfExpired_noop)

lemma sweep_rl_idem: "cleanupRateLimitCache now (cleanupRateLimitCache now s) = cleanupRateLimitCache now s"
proof -
  have "\<And>k e. map_get (cleanupRateLimitCache now s) k = Some e \<Longrightarrow> now < expiresAt e"
    by (auto simp: sweep_rl_get split: option.splits if_splits)
  then show ?thesis
    unfolding cleanupRateLimitCache_def [of now "cleanupRateLimitCache now s"]
    by (rule sweep_rl_noop_aux)
qed

lemma rateLimit_fresh:
  assumes "keyGenerator_of options req = Inr key"
    and "case map_get store key of None \<Rightarrow> True | Some e \<Rightarrow> expiresAt e \<le> now"
  shows "rateLimit options store now req =
           (map_set key \<lparr>count = 1, expiresAt = now + windowMs_of options\<rparr>
              (cleanupIfExpired key now store), Next)"
proof -
  have "map_get (cleanupIfExpired key now store) key = None"
    using assms(2) by (cases "map_get store key") (simp_all add: cleanupIfExpired_get)
  then show ?thesis
    using assms(1) by (simp add: rateLimit_def)
qed

lemma rateLimit_open:
  assumes "keyGenerator_of options req = Inr key"
    and "map_get store key = Some e" and "now < expiresAt e"
  shows "rateLimit options store now req =
           (if max_of options \<le> count e then (store, denial options)
            else (map_set key (e\<lparr>count := count e + 1\<rparr>) store, Next))"
proof -
  have "cleanupIfExpired key now store = store"
    using assms(2,3) by (simp add: cleanupIfExpired_def)
  then show ?thesis
    using assms(1,2) by (simp add: rateLimit_def denial_def)
qed

lemma rateLimit_frame:
  assumes "keyGenerator_of options r \<noteq> Inr key"
  shows "map_get (fst (rateLimit options store t r)) key = map_get store key"
proof (cases "keyGenerator_of options r")
  case (Inl x)
  then show ?thesis by (simp add: rateLimit_def)
next
  case (Inr k)
  then have ne: "k \<noteq> key" using assms by simp
  have g: "map_get (cleanupIfExpired k t store) key = map_get store key"
    using ne by (simp add: cleanupIfExpired_get split: option.splits)
  show ?thesis
    using ne g
    by (cases "map_get (cleanupIfExpired k t store) k")
      (simp_all add: rateLimit_def Inr Let_def map_get_set_other)
qed

lemma checks_open_mixed:
  assumes "map_get store key = Some e"
    and "\<forall>(t, r) \<in> set cs. keyGenerator_of options r = Inr key \<longrightarrow> t < expiresAt e"
  shows "map snd (filter (\<lambda>((t, r), out). keyGenerator_of options r = Inr key)
                   (zip cs (snd (checks options store cs)))) =
           map (\<lambda>i. if count e + int i < max_of options then Next else denial options)
             [0..<length (filter (\<lambda>(t, r). keyGenerator_of options r = Inr key) cs)]
         \<and> (\<exists>e'. map_get (fst (checks options store cs)) key = Some e'
                \<and> expiresAt e' = expiresAt e)"
  using assms
proof (induction cs arbitrary: store e)
  case Nil
  then show ?case by simp
next
  case (Cons c cs)
  obtain t r where c: "c = (t, r)" by (cases c)
  have rest: "\<forall>(t, r) \<in> set cs. keyGenerator_of options r = Inr key \<longrightarrow> t < expiresAt e"
    using Cons.prems(2) by auto
  show ?case
  proof (cases "keyGenerator_of options r = Inr key")
    case other: False
    obtain s' out where step: "rateLimit options store t r = (s', out)"
      by (cases "rateLimit options store t r")
    have "map_get s' key = map_get store key"
      using rateLimit_frame [OF other, of store t] step by simp
    then have g: "map_get s' key = Some e" using Cons.prems(1) by simp
    show ?thesis
      using Cons.IH [OF g rest] other by (simp add: c step split_beta)
  next
    case k: True
    have t: "t < expiresAt e" using Cons.prems(2) c k by auto
    show ?thesis
    proof (cases "max_of options \<le> count e")
      case True
      have step: "rateLimit options store t r = (store, denial options)"
        using rateLimit_open [OF k Cons.prems(1) t] True by simp
      have all: "\<And>i::nat. \<not> count e + int i < max_of options"
        using True by simp
      show ?thesis
        using Cons.IH [OF Cons.prems(1) rest] True k
        by (simp add: c step split_beta all map_upt_Suc del: upt_Suc)
    next
      case False
      let ?e = "e\<lparr>count := count e + 1\<rparr>"
      let ?s = "map_set key ?e store"
      have step: "rateLimit options store t r = (?s, Next)"
        using rateLimit_open [OF k Cons.prems(1) t] False by simp
      have g: "map_get ?s key = Some ?e" by (rule map_get_set_same)
      have rest': "\<forall>(t, r) \<in> set cs. keyGenerator_of options r = Inr key
                     \<longrightarrow> t < expiresAt ?e"
        using rest by simp
      show ?thesis
        using Cons.IH [OF g rest'] False k
        by (simp add: c step split_beta map_upt_Suc add.assoc del: upt_Suc)
    qed
  qed
qed

lemma checks_fresh_mixed:
  assumes k: "keyGenerator_of options req = Inr key"
    and fresh: "case map_get store key of None \<Rightarrow> True | Some e \<Rightarrow> expiresAt e \<le> start"
    and later: "\<forall>(t, r) \<in> set later. keyGenerator_of options r = Inr key
                  \<longrightarrow> t < start + windowMs_of options"
  shows "map snd (filter (\<lambda>((t, r), out). keyGenerator_of options r = Inr key)
                   (zip ((start, req) # later)
                      (snd (checks options store ((start, req) # later))))) =
           Next # map (\<lambda>i. if 1 + int i < max_of options then Next else denial options)
                    [0..<length (filter (\<lambda>(t, r). keyGenerator_of options r = Inr key) later)]
         \<and> (\<exists>e'. map_get (fst (checks options store ((start, req) # later))) key = Some e'
                \<and> expiresAt e' = start + windowMs_of options)"
proof -
  let ?e = "\<lparr>count = 1, expiresAt = start + windowMs_of options\<rparr>"
  let ?s = "map_set key ?e (cleanupIfExpired key start store)"
  have step: "rateLimit options store start req = (?s, Next)"
    by (rule rateLimit_fresh [OF k fresh])
  have g: "map_get ?s key = Some ?e" by (rule map_get_set_same)
  have later': "\<forall>(t, r) \<in> set later. keyGenerator_of options r = Inr key
                  \<longrightarrow> t < expiresAt ?e"
    using later by simp
  show ?thesis
    using checks_open_mixed [OF g later'] k by (simp add: step split_beta)
qed

lemma options_unfold:
  "max_of options = (case opt_max options of Some m \<Rightarrow> m | None \<Rightarrow> 10)"
  "windowMs_of options = (case opt_windowMs options of Some w \<Rightarrow> w | None \<Rightarrow> 60000)"
  "message_of options = (case opt_message options of Some m \<Rightarrow> m | None \<Rightarrow> ''Too many requests'')"
  "keyGenerator_of options =
     (case opt_keyGenerator options of Some g \<Rightarrow> g | None \<Rightarrow> defaultKeyGenerator)"
  by (simp_all add: max_of_def windowMs_of_def message_of_def keyGenerator_of_def)

lemma denial_fields:
  "denial options =
     NextErr \<lparr>code = FORBIDDEN, message = message_of options, status = 429, details = None\<rparr>"
  by (simp add: denial_def new_AppError_def)

text \<open>
  Claim C1 as stated fails: with \<open>max = 0\<close> and an empty store the first check is allowed.
  The branch for an absent entry stores \<open>count = 1\<close> and calls \<^verbatim>\<open>next()\<close> without looking
  at \<open>max\<close>.
\<close>

theorem rateLimit_max_zero_first_allowed:
  "rateLimit \<lparr>opt_windowMs = None, opt_max = Some 0, opt_keyGenerator = None, opt_message = None\<rparr>
     [] 1000 \<lparr>req_method = ''GET'', req_ip = Some ''10.0.0.1'', req_headers = []\<rparr>
   = ([(''10.0.0.1'', \<lparr>count = 1, expiresAt = 61000\<rparr>)], Next)"
  by (simp add: rateLimit_def keyGenerator_of_def defaultKeyGenerator_def cleanupIfExpired_def
      map_get_def map_set_def windowMs_of_def)

text \<open>
  Claim C1, amended: for every configuration with \<open>max = N \<le> 0\<close>, window \<open>W\<close>, message
  \<open>msg\<close> and key generator \<open>gen\<close> (each the configured value or its default), the first
  check for a key that has no unexpired counter entry is allowed and creates the entry
  \<open>{count: 1, expiresAt: start + W}\<close>; of the checks that follow, in any order with checks for
  other keys, every one for that key made before \<open>start + W\<close> is denied with the AppError of
  code FORBIDDEN, status 429 and message \<open>msg\<close>.
\<close>

theorem rateLimit_nonpositive_max:
  assumes "N = (case opt_max options of Some m \<Rightarrow> m | None \<Rightarrow> 10)" and "N \<le> 0"
    and "W = (case opt_windowMs options of Some w \<Rightarrow> w | None \<Rightarrow> 60000)"
    and "msg = (case opt_message options of Some m \<Rightarrow> m | None \<Rightarrow> ''Too many requests'')"
    and "gen = (case opt_keyGenerator options of Some g \<Rightarrow> g | None \<Rightarrow> defaultKeyGenerator)"
    and "gen req = Inr key"
    and "case map_get store key of None \<Rightarrow> True | Some e \<Rightarrow> expiresAt e \<le> start"
    and "\<forall>(t, r) \<in> set later. gen r = Inr key \<longrightarrow> t < start + W"
  shows "snd (rateLimit options store start req) = Next
         \<and> map_get (fst (rateLimit options store start req)) key
             = Some \<lparr>count = 1, expiresAt = start + W\<rparr>
         \<and> map snd (filter (\<lambda>((t, r), out). gen r = Inr key)
                      (zip ((start, req) # later)
                         (snd (checks options store ((start, req) # later)))))
             = Next # replicate (length (filter (\<lambda>(t, r). gen r = Inr key) later))
                        (NextErr \<lparr>code = FORBIDDEN, message = msg, status = 429,
                                  details = None\<rparr>)"
proof -
  have g: "gen = keyGenerator_of options" and w: "W = windowMs_of options"
    and n: "N = max_of options" and m: "msg = message_of options"
    using assms(1,3,4,5) by (simp_all add: options_unfold)
  have k: "keyGenerator_of options req = Inr key" using assms(6) g by simp
  have later: "\<forall>(t, r) \<in> set later. keyGenerator_of options r = Inr key
                  \<longrightarrow> t < start + windowMs_of options"
    using assms(8) g w by simp
  have first: "rateLimit options store start req =
           (map_set key \<lparr>count = 1, expiresAt = start + windowMs_of options\<rparr>
              (cleanupIfExpired key start store), Next)"
    by (rule rateLimit_fresh [OF k assms(7)])
  have none: "\<And>i::nat. \<not> 1 + int i < max_of options"
    using assms(2) n by simp
  have run: "map snd (filter (\<lambda>((t, r), out). gen r = Inr key)
                      (zip ((start, req) # later)
                         (snd (checks options store ((start, req) # later)))))
             = Next # replicate (length (filter (\<lambda>(t, r). gen r = Inr key) later))
                        (NextErr \<lparr>code = FORBIDDEN, message = msg, status = 429,
                                  details = None\<rparr>)"
    using checks_fresh_mixed [OF k assms(7) later]
    unfolding g m by (simp add: none denial_fields map_replicate_const del: checks.simps)
  show ?thesis
    using run by (simp add: first map_get_set_same w)
qed

theorem rateLimit_nonpositive_max_witness:
  "snd (checks \<lparr>opt_windowMs = Some 1000, opt_max = Some (- 1), opt_keyGenerator = None,
                opt_message = Some ''slow down''\<rparr>
        [] [(0, req_a), (1, req_b), (2, req_a), (999, req_a)])
     = [Next, Next,
        NextErr \<lparr>code = FORBIDDEN, message = ''slow down'', status = 429, details = None\<rparr>,
        NextErr \<lparr>code = FORBIDDEN, message = ''slow down'', status = 429, details = None\<rparr>]
   \<and> map_get (fst (rateLimit \<lparr>opt_windowMs = Some 1000, opt_max = Some (- 1),
                 opt_keyGenerator = None, opt_message = Some ''slow down''\<rparr> [] 0 req_a))
         ''10.0.0.1''
     = Some \<lparr>count = 1, expiresAt = 1000\<rparr>"
proof -
  let ?o = "\<lparr>opt_windowMs = Some 1000, opt_max = Some (- 1), opt_keyGenerator = None,
             opt_message = Some ''slow down''\<rparr>"
  have a: "defaultKeyGenerator req_a = Inr ''10.0.0.1''"
    and b: "defaultKeyGenerator req_b = Inr ''10.0.0.2''"
    by (simp_all add: defaultKeyGenerator_def req_a_def req_b_def)
  have later: "\<forall>(t, r) \<in> set [(1, req_b), (2, req_a), (999 :: int, req_a)].
                 defaultKeyGenerator r = Inr ''10.0.0.1'' \<longrightarrow> t < 0 + 1000"
    by simp
  have fresh: "case map_get ([] :: rl_store) ''10.0.0.1'' of None \<Rightarrow> True
               | Some e \<Rightarrow> expiresAt e \<le> 0"
    by (simp add: map_get_def)
  note t = rateLimit_nonpositive_max
    [where options = ?o and N = "- 1" and W = 1000 and msg = "''slow down''"
       and gen = defaultKeyGenerator and req = req_a and key = "''10.0.0.1''"
       and store = "[]" and start = 0
       and later = "[(1, req_b), (2, req_a), (999, req_a)]",
     OF _ _ _ _ _ a fresh later]
  have t': "map_get (fst (rateLimit ?o [] 0 req_a)) ''10.0.0.1''
              = Some \<lparr>count = 1, expiresAt = 1000\<rparr>"
    using t by simp
  have run: "snd (checks ?o [] [(0, req_a), (1, req_b), (2, req_a), (999, req_a)])
     = [Next, Next,
        NextErr \<lparr>code = FORBIDDEN, message = ''slow down'', status = 429, details = None\<rparr>,
        NextErr \<lparr>code = FORBIDDEN, message = ''slow down'', status = 429, details = None\<rparr>]"
    by (simp add: rateLimit_def keyGenerator_of_def a b cleanupIfExpired_def map_get_def
        map_set_def windowMs_of_def max_of_def message_of_def new_AppError_def)
  show ?thesis using t' run by simp
qed

text \<open>
  Claim C4: with \<open>max = N \<ge> 1\<close>, \<open>windowMs = W > 0\<close>, message \<open>msg\<close> and key generator
  \<open>gen\<close> (each the configured value or its default), for a key whose window starts at
  \<open>start\<close> (no unexpired entry there; the check at \<open>start\<close> creates
  \<open>{count: 1, expiresAt: start + W}\<close>): of the checks that follow, in any order with checks
  for other keys, those for this key made before \<open>start + W\<close> are allowed exactly while
  fewer than \<open>N\<close> checks for the key came before them, and every further one is denied with
  the AppError of code FORBIDDEN, status 429 and message \<open>msg\<close>. A check for the key once
  \<open>W\<close> has elapsed since \<open>start\<close> is allowed again and opens a new window.
\<close>

theorem rateLimit_window:
  assumes "N = (case opt_max options of Some m \<Rightarrow> m | None \<Rightarrow> 10)" and "1 \<le> N"
    and "W = (case opt_windowMs options of Some w \<Rightarrow> w | None \<Rightarrow> 60000)" and "0 < W"
    and "msg = (case opt_message options of Some m \<Rightarrow> m | None \<Rightarrow> ''Too many requests'')"
    and "gen = (case opt_keyGenerator options of Some g \<Rightarrow> g | None \<Rightarrow> defaultKeyGenerator)"
    and "gen req = Inr key"
    and "case map_get store key of None \<Rightarrow> True | Some e \<Rightarrow> expiresAt e \<le> start"
    and "\<forall>(t, r) \<in> set later. gen r = Inr key \<longrightarrow> t < start + W"
  shows "map snd (filter (\<lambda>((t, r), out). gen r = Inr key)
                   (zip ((start, req) # later)
                      (snd (checks options store ((start, req) # later)))))
           = map (\<lambda>i. if int i < N then Next
                       else NextErr \<lparr>code = FORBIDDEN, message = msg, status = 429,
                                     details = None\<rparr>)
               [0..<Suc (length (filter (\<lambda>(t, r). gen r = Inr key) later))]
         \<and> map_get (fst (rateLimit options store start req)) key
             = Some \<lparr>count = 1, expiresAt = start + W\<rparr>
         \<and> (\<forall>t'. start + W \<le> t' \<longrightarrow>
               snd (rateLimit options (fst (checks options store ((start, req) # later))) t' req)
                 = Next
               \<and> map_get
                   (fst (rateLimit options (fst (checks options store ((start, req) # later))) t' req))
                   key
                 = Some \<lparr>count = 1, expiresAt = t' + W\<rparr>)"
proof -
  let ?s = "fst (checks options store ((start, req) # later))"
  have g: "gen = keyGenerator_of options" and w: "W = windowMs_of options"
    and n: "N = max_of options" and m: "msg = message_of options"
    using assms(1,3,5,6) by (simp_all add: options_unfold)
  have k: "keyGenerator_of options req = Inr key" using assms(7) g by simp
  have later: "\<forall>(t, r) \<in> set later. keyGenerator_of options r = Inr key
                  \<longrightarrow> t < start + windowMs_of options"
    using assms(9) g w by simp
  note mixed = checks_fresh_mixed [OF k assms(8) later]
  have run: "map snd (filter (\<lambda>((t, r), out). gen r = Inr key)
                   (zip ((start, req) # later)
                      (snd (checks options store ((start, req) # later)))))
           = map (\<lambda>i. if int i < N then Next
                       else NextErr \<lparr>code = FORBIDDEN, message = msg, status = 429,
                                     details = None\<rparr>)
               [0..<Suc (length (filter (\<lambda>(t, r). gen r = Inr key) later))]"
    using mixed [THEN conjunct1] assms(2) unfolding g m n
    by (simp add: map_upt_Suc denial_fields del: upt_Suc checks.simps)
  have first: "map_get (fst (rateLimit options store start req)) key
             = Some \<lparr>count = 1, expiresAt = start + W\<rparr>"
    by (simp add: rateLimit_fresh [OF k assms(8)] map_get_set_same w)
  have reset: "snd (rateLimit options ?s t' req) = Next
               \<and> map_get (fst (rateLimit options ?s t' req)) key
                 = Some \<lparr>count = 1, expiresAt = t' + W\<rparr>"
    if "start + W \<le> t'" for t'
  proof -
    from mixed obtain e' where e': "map_get ?s key = Some e'"
      "expiresAt e' = start + windowMs_of options" by blast
    have "case map_get ?s key of None \<Rightarrow> True | Some e \<Rightarrow> expiresAt e \<le> t'"
      using e' that w by simp
    from rateLimit_fresh [OF k this] show ?thesis
      by (simp add: map_get_set_same w)
  qed
  show ?thesis using run first reset by blast
qed

theorem rateLimit_window_witness:
  "snd (checks \<lparr>opt_windowMs = Some 1000, opt_max = Some 2, opt_keyGenerator = None,
                opt_message = Some ''slow down''\<rparr>
        [] [(0, req_a), (1, req_b), (2, req_a), (500, req_b), (999, req_a)])
     = [Next, Next, Next, Next,
        NextErr \<lparr>code = FORBIDDEN, message = ''slow down'', status = 429, details = None\<rparr>]
   \<and> snd (rateLimit \<lparr>opt_windowMs = Some 1000, opt_max = Some 2, opt_keyGenerator = None,
                     opt_message = Some ''slow down''\<rparr>
        (fst (checks \<lparr>opt_windowMs = Some 1000, opt_max = Some 2, opt_keyGenerator = None,
                      opt_message = Some ''slow down''\<rparr>
           [] [(0, req_a), (1, req_b), (2, req_a), (500, req_b), (999, req_a)])) 1000 req_a)
     = Next"
proof -
  let ?o = "\<lparr>opt_windowMs = Some 1000, opt_max = Some 2, opt_keyGenerator = None,
             opt_message = Some ''slow down''\<rparr>"
  have a: "defaultKeyGenerator req_a = Inr ''10.0.0.1''"
    and b: "defaultKeyGenerator req_b = Inr ''10.0.0.2''"
    by (simp_all add: defaultKeyGenerator_def req_a_def req_b_def)
  have later: "\<forall>(t, r) \<in> set [(1, req_b), (2, req_a), (500, req_b), (999 :: int, req_a)].
                 defaultKeyGenerator r = Inr ''10.0.0.1'' \<longrightarrow> t < 0 + 1000"
    by simp
  have fresh: "case map_get ([] :: rl_store) ''10.0.0.1'' of None \<Rightarrow> True
               | Some e \<Rightarrow> expiresAt e \<le> 0"
    by (simp add: map_get_def)
  note t = rateLimit_window
    [where options = ?o and N = 2 and W = 1000 and msg = "''slow down''"
       and gen = defaultKeyGenerator and req = req_a and key = "''10.0.0.1''"
       and store = "[]" and start = 0
       and later = "[(1, req_b), (2, req_a), (500, req_b), (999, req_a)]",
     OF _ _ _ _ _ _ a fresh later]
  have reset: "snd (rateLimit ?o
        (fst (checks ?o [] [(0, req_a), (1, req_b), (2, req_a), (500, req_b), (999, req_a)]))
        1000 req_a) = Next"
    using t by simp
  have run: "snd (checks ?o [] [(0, req_a), (1, req_b), (2, req_a), (500, req_b), (999, req_a)])
     = [Next, Next, Next, Next,
        NextErr \<lparr>code = FORBIDDEN, message = ''slow down'', status = 429, details = None\<rparr>]"
    by (simp add: rateLimit_def keyGenerator_of_def a b cleanupIfExpired_def map_get_def
        map_set_def windowMs_of_def max_of_def message_of_def new_AppError_def)
  show ?thesis using reset run by simp
qed

text \<open>
  Claim C8: when the caller-supplied \<^verbatim>\<open>keyGenerator\<close> throws, the middleware lets that very
  exception out (it calls \<^verbatim>\<open>next\<close> neither way) and the store is the one it started with.
\<close>

theorem rateLimit_keyGenerator_throws:
  assumes "opt_keyGenerator options = Some g" and "g req = Inl e"
  shows "rateLimit options store now req = (store, Threw e)"
  using assms by (simp add: rateLimit_def keyGenerator_of_def)

theorem rateLimit_keyGenerator_throws_witness:
  "rateLimit \<lparr>opt_windowMs = None, opt_max = Some 5, opt_keyGenerator = Some failingKeyGenerator,
              opt_message = None\<rparr>
     [(''10.0.0.1'', \<lparr>count = 1, expiresAt = 61000\<rparr>)] 2000 req_a
   = ([(''10.0.0.1'', \<lparr>count = 1, expiresAt = 61000\<rparr>)],
      Threw \<lparr>err_code = None, err_name = Some ''Error'',
          err_message = Some ''Key generation failed'', err_status = None, err_data = None\<rparr>)"
  using rateLimit_keyGenerator_throws
    [of "\<lparr>opt_windowMs = None, opt_max = Some 5, opt_keyGenerator = Some failingKeyGenerator,
              opt_message = None\<rparr>" failingKeyGenerator req_a
        "\<lparr>err_code = None, err_name = Some ''Error'',
          err_message = Some ''Key generation failed'', err_status = None, err_data = None\<rparr>"]
  by (simp add: failingKeyGenerator_def)

text \<open>
  Claim C10: a check that denies leaves the store as it was. Whenever the outcome is
  \<^verbatim>\<open>next(err)\<close> the store is unchanged; and a check that finds an unexpired entry with
  \<open>count \<ge> max\<close> is such a check: neither the count nor the expiry of the entry moves.
\<close>

theorem rateLimit_denial_keeps_store:
  "(snd (rateLimit options store now req) = NextErr err \<longrightarrow>
      fst (rateLimit options store now req) = store)
   \<and> (keyGenerator_of options req = Inr key \<and> map_get store key = Some e
        \<and> now < expiresAt e \<and> max_of options \<le> count e \<longrightarrow>
      rateLimit options store now req =
        (store, NextErr (new_AppError FORBIDDEN (message_of options) 429 None)))"
proof -
  have a: "fst (rateLimit options store now req) = store"
    if d: "snd (rateLimit options store now req) = NextErr err"
  proof (cases "keyGenerator_of options req")
    case (Inl x)
    with d show ?thesis by (simp add: rateLimit_def)
  next
    case (Inr k)
    show ?thesis
    proof (cases "map_get (cleanupIfExpired k now store) k")
      case None
      with d Inr show ?thesis by (simp add: rateLimit_def)
    next
      case (Some en)
      then have "cleanupIfExpired k now store = store"
        by (auto simp: cleanupIfExpired_def map_get_delete split: option.splits if_splits)
      with d Inr Some show ?thesis
        by (simp add: rateLimit_def Let_def split: if_splits)
    qed
  qed
  have b: "rateLimit options store now req =
        (store, NextErr (new_AppError FORBIDDEN (message_of options) 429 None))"
    if "keyGenerator_of options req = Inr key" "map_get store key = Some e"
       "now < expiresAt e" "max_of options \<le> count e"
    using rateLimit_open [OF that(1,2,3)] that(4) by (simp add: denial_def)
  show ?thesis using a b by blast
qed

theorem rateLimit_denial_keeps_store_witness:
  "rateLimit \<lparr>opt_windowMs = None, opt_max = Some 1, opt_keyGenerator = None, opt_message = None\<rparr>
     [(''10.0.0.1'', \<lparr>count = 1, expiresAt = 61000\<rparr>)] 2000 req_a
   = ([(''10.0.0.1'', \<lparr>count = 1, expiresAt = 61000\<rparr>)],
      NextErr (new_AppError FORBIDDEN ''Too many requests'' 429 None))"
  using rateLimit_denial_keeps_store
    [of "\<lparr>opt_windowMs = None, opt_max = Some 1, opt_keyGenerator = None, opt_message = None\<rparr>"
        "[(''10.0.0.1'', \<lparr>count = 1, expiresAt = 61000\<rparr>)]" 2000 req_a
        "new_AppError FORBIDDEN ''Too many requests'' 429 None"
        "''10.0.0.1''" "\<lparr>count = 1, expiresAt = 61000\<rparr>"]
  by (simp add: max_of_def message_of_def keyGenerator_of_def
      defaultKeyGenerator_def req_a_def map_get_def)

lemma cleanIfExpired_get:
  "map_get (cleanIfExpired key now s) k =
     (case map_get s k of
        None \<Rightarrow> None
      | Some c \<Rightarrow> if k = key \<and> c_expiresAt c \<le> now then None else Some c)"
  by (auto simp: cleanIfExpired_def map_get_delete split: option.splits)

lemma sweep_idem_get_aux:
  "map_get (fold (\<lambda>key s. cleanIfExpired key now s) ks s) k =
     (case map_get s k of
        None \<Rightarrow> None
      | Some c \<Rightarrow> if k \<in> set ks \<and> c_expiresAt c \<le> now then None else Some c)"
proof (induction ks arbitrary: s)
  case Nil
  then show ?case by (simp split: option.splits)
next
  case (Cons a ks)
  show ?case
    by (simp add: Cons.IH cleanIfExpired_get split: option.splits)
qed

lemma sweep_idem_get:
  "map_get (cleanupIdempotencyCache now s) k =
     (case map_get s k of
        None \<Rightarrow> None
      | Some c \<Rightarrow> if c_expiresAt c \<le> now then None else Some c)"
  by (auto simp: cleanupIdempotencyCache_def sweep_idem_get_aux dest: map_get_Some_keys
      split: option.splits)

lemma cleanIfExpired_noop:
  "(\<And>c. map_get s key = Some c \<Longrightarrow> now < c_expiresAt c) \<Longrightarrow> cleanIfExpired key now s = s"
  by (auto simp: cleanIfExpired_def split: option.splits)

lemma sweep_idem_noop_aux:
  "(\<And>k c. map_get s k = Some c \<Longrightarrow> now < c_expiresAt c) \<Longrightarrow>
   fold (\<lambda>key s. cleanIfExpired key now s) ks s = s"
  by (induction ks) (simp_all add: cleanIfExpired_noop)

lemma sweep_idem_idem:
  "cleanupIdempotencyCache now (cleanupIdempotencyCache now s) = cleanupIdempotencyCache now s"
proof -
  have "\<And>k c. map_get (cleanupIdempotencyCache now s) k = Some c \<Longrightarrow> now < c_expiresAt c"
    by (auto simp: sweep_idem_get split: option.splits if_splits)
  then show ?thesis
    unfolding cleanupIdempotencyCache_def [of now "cleanupIdempotencyCache now s"]
    by (rule sweep_idem_noop_aux)
qed

lemma map_get_in_set: "map_get s k = Some v \<Longrightarrow> (k, v) \<in> set s"
  by (simp add: map_get_def map_of_SomeD)

lemma cleanupIfExpired_filter:
  assumes "distinct (map fst s)"
  shows "cleanupIfExpired a now s = filter (\<lambda>(k, e). \<not> expiresAt e \<le> now \<or> k \<noteq> a) s"
proof (cases "map_of s a")
  case None
  then have "\<And>k e. (k, e) \<in> set s \<Longrightarrow> k \<noteq> a"
    by (metis map_of_eq_None_iff fst_conv image_eqI)
  then have "filter (\<lambda>(k, e). \<not> expiresAt e \<le> now \<or> k \<noteq> a) s = s"
    by (auto simp: filter_id_conv)
  with None show ?thesis by (simp add: cleanupIfExpired_def map_get_def)
next
  case (Some e)
  have same: "\<And>k e'. (k, e') \<in> set s \<Longrightarrow> k = a \<Longrightarrow> e' = e"
    using Some assms by (metis map_of_is_SomeI option.inject)
  show ?thesis
  proof (cases "expiresAt e \<le> now")
    case True
    have "filter (\<lambda>(k, e). \<not> expiresAt e \<le> now \<or> k \<noteq> a) s = filter (\<lambda>(k', _). a \<noteq> k') s"
      by (rule filter_cong) (use same True in auto)
    with Some True show ?thesis
      by (simp add: cleanupIfExpired_def map_get_def map_delete_def AList.delete_eq)
  next
    case False
    have "filter (\<lambda>(k, e). \<not> expiresAt e \<le> now \<or> k \<noteq> a) s = s"
      using same False by (auto simp: filter_id_conv)
    with Some False show ?thesis by (simp add: cleanupIfExpired_def map_get_def)
  qed
qed

lemma sweep_rl_filter_aux:
  "distinct (map fst s) \<Longrightarrow>
   fold (\<lambda>key s. cleanupIfExpired key now s) ks s =
     filter (\<lambda>(k, e). \<not> expiresAt e \<le> now \<or> k \<notin> set ks) s"
proof (induction ks arbitrary: s)
  case Nil
  then show ?case by simp
next
  case (Cons a ks)
  have d: "distinct (map fst (filter (\<lambda>(k, e). \<not> expiresAt e \<le> now \<or> k \<noteq> a) s))"
    using Cons.prems by (rule distinct_map_filter)
  have "fold (\<lambda>key s. cleanupIfExpired key now s) (a # ks) s =
        fold (\<lambda>key s. cleanupIfExpired key now s) ks
          (filter (\<lambda>(k, e). \<not> expiresAt e \<le> now \<or> k \<noteq> a) s)"
    by (simp only: fold_simps cleanupIfExpired_filter [OF Cons.prems])
  also have "\<dots> = filter (\<lambda>(k, e). \<not> expiresAt e \<le> now \<or> k \<notin> set ks)
          (filter (\<lambda>(k, e). \<not> expiresAt e \<le> now \<or> k \<noteq> a) s)"
    by (rule Cons.IH [OF d])
  also have "\<dots> = filter (\<lambda>(k, e). \<not> expiresAt e \<le> now \<or> k \<notin> set (a # ks)) s"
    unfolding filter_filter by (rule filter_cong) auto
  finally show ?case .
qed

lemma sweep_rl_filter:
  assumes "distinct (map_keys s)"
  shows "cleanupRateLimitCache now s = filter (\<lambda>(k, e). \<not> expiresAt e \<le> now) s"
proof -
  have "filter (\<lambda>(k, e). \<not> expiresAt e \<le> now \<or> k \<notin> set (map fst s)) s =
        filter (\<lambda>(k, e). \<not> expiresAt e \<le> now) s"
    by (rule filter_cong) force+
  then show ?thesis
    using assms by (simp add: cleanupRateLimitCache_def map_keys_def sweep_rl_filter_aux)
qed

lemma cleanIfExpired_filter:
  assumes "distinct (map fst s)"
  shows "cleanIfExpired a now s = filter (\<lambda>(k, c). \<not> c_expiresAt c \<le> now \<or> k \<noteq> a) s"
proof (cases "map_of s a")
  case None
  then have "\<And>k c. (k, c) \<in> set s \<Longrightarrow> k \<noteq> a"
    by (metis map_of_eq_None_iff fst_conv image_eqI)
  then have "filter (\<lambda>(k, c). \<not> c_expiresAt c \<le> now \<or> k \<noteq> a) s = s"
    by (auto simp: filter_id_conv)
  with None show ?thesis by (simp add: cleanIfExpired_def map_get_def)
next
  case (Some c)
  have same: "\<And>k c'. (k, c') \<in> set s \<Longrightarrow> k = a \<Longrightarrow> c' = c"
    using Some assms by (metis map_of_is_SomeI option.inject)
  show ?thesis
  proof (cases "c_expiresAt c \<le> now")
    case True
    have "filter (\<lambda>(k, c). \<not> c_expiresAt c \<le> now \<or> k \<noteq> a) s = filter (\<lambda>(k', _). a \<noteq> k') s"
      by (rule filter_cong) (use same True in auto)
    with Some True show ?thesis
      by (simp add: cleanIfExpired_def map_get_def map_delete_def AList.delete_eq)
  next
    case False
    have "filter (\<lambda>(k, c). \<not> c_expiresAt c \<le> now \<or> k \<noteq> a) s = s"
      using same False by (auto simp: filter_id_conv)
    with Some False show ?thesis by (simp add: cleanIfExpired_def map_get_def)
  qed
qed

lemma sweep_idem_filter_aux:
  "distinct (map fst s) \<Longrightarrow>
   fold (\<lambda>key s. cleanIfExpired key now s) ks s =
     filter (\<lambda>(k, c). \<not> c_expiresAt c \<le> now \<or> k \<notin> set ks) s"
proof (induction ks arbitrary: s)
  case Nil
  then show ?case by simp
next
  case (Cons a ks)
  have d: "distinct (map fst (filter (\<lambda>(k, c). \<not> c_expiresAt c \<le> now \<or> k \<noteq> a) s))"
    using Cons.prems by (rule distinct_map_filter)
  have "fold (\<lambda>key s. cleanIfExpired key now s) (a # ks) s =
        fold (\<lambda>key s. cleanIfExpired key now s) ks
          (filter (\<lambda>(k, c). \<not> c_expiresAt c \<le> now \<or> k \<noteq> a) s)"
    by (simp only: fold_simps cleanIfExpired_filter [OF Cons.prems])
  also have "\<dots> = filter (\<lambda>(k, c). \<not> c_expiresAt c \<le> now \<or> k \<notin> set ks)
          (filter (\<lambda>(k, c). \<not> c_expiresAt c \<le> now \<or> k \<noteq> a) s)"
    by (rule Cons.IH [OF d])
  also have "\<dots> = filter (\<lambda>(k, c). \<not> c_expiresAt c \<le> now \<or> k \<notin> set (a # ks)) s"
    unfolding filter_filter by (rule filter_cong) auto
  finally show ?case .
qed

lemma sweep_idem_filter:
  assumes "distinct (map_keys s)"
  shows "cleanupIdempotencyCache now s = filter (\<lambda>(k, c). \<not> c_expiresAt c \<le> now) s"
proof -
  have "filter (\<lambda>(k, c). \<not> c_expiresAt c \<le> now \<or> k \<notin> set (map fst s)) s =
        filter (\<lambda>(k, c). \<not> c_expiresAt c \<le> now) s"
    by (rule filter_cong) force+
  then show ?thesis
    using assms by (simp add: cleanupIdempotencyCache_def map_keys_def sweep_idem_filter_aux)
qed

text \<open>
  Claim C9: for every store and every \<open>now\<close>, the sweep of either cache removes exactly the
  entries with \<open>expiresAt \<le> now\<close>: looking up any key afterwards gives nothing for an entry
  that had expired and the unchanged entry otherwise, and on a store with distinct keys (the
  shape of a Map) the result is the store filtered by \<open>now < expiresAt\<close>. Sweeping a second
  time with the same \<open>now\<close> changes nothing.
\<close>

theorem sweep_exact_and_idempotent:
  "(\<forall>k. map_get (cleanupRateLimitCache now store) k =
          (case map_get store k of
             None \<Rightarrow> None
           | Some e \<Rightarrow> if expiresAt e \<le> now then None else Some e))
   \<and> (distinct (map_keys store) \<longrightarrow>
        cleanupRateLimitCache now store = filter (\<lambda>(k, e). \<not> expiresAt e \<le> now) store)
   \<and> cleanupRateLimitCache now (cleanupRateLimitCache now store)
        = cleanupRateLimitCache now store
   \<and> (\<forall>k. map_get (cleanupIdempotencyCache now cache) k =
          (case map_get cache k of
             None \<Rightarrow> None
           | Some c \<Rightarrow> if c_expiresAt c \<le> now then None else Some c))
   \<and> (distinct (map_keys cache) \<longrightarrow>
        cleanupIdempotencyCache now cache = filter (\<lambda>(k, c). \<not> c_expiresAt c \<le> now) cache)
   \<and> cleanupIdempotencyCache now (cleanupIdempotencyCache now cache)
        = cleanupIdempotencyCache now cache"
  using sweep_rl_get [of now store] sweep_rl_filter [of store now] sweep_rl_idem [of now store]
    sweep_idem_get [of now cache] sweep_idem_filter [of cache now] sweep_idem_idem [of now cache]
  by blast

theorem sweep_exact_and_idempotent_witness:
  "distinct (map_keys [(''a'', \<lparr>count = 3, expiresAt = 500\<rparr>), (''b'', \<lparr>count = 1, expiresAt = 1000\<rparr>),
                       (''c'', \<lparr>count = 2, expiresAt = 1001\<rparr>)])
   \<and> cleanupRateLimitCache 1000
        [(''a'', \<lparr>count = 3, expiresAt = 500\<rparr>), (''b'', \<lparr>count = 1, expiresAt = 1000\<rparr>),
         (''c'', \<lparr>count = 2, expiresAt = 1001\<rparr>)]
      = [(''c'', \<lparr>count = 2, expiresAt = 1001\<rparr>)]
   \<and> distinct (map_keys [(''k1'', \<lparr>c_status = 201, c_headers = [], c_body = ''x'', c_expiresAt = 999\<rparr>),
                          (''k2'', \<lparr>c_status = 200, c_headers = [], c_body = ''y'', c_expiresAt = 2000\<rparr>)])
   \<and> cleanupIdempotencyCache 1000
        [(''k1'', \<lparr>c_status = 201, c_headers = [], c_body = ''x'', c_expiresAt = 999\<rparr>),
         (''k2'', \<lparr>c_status = 200, c_headers = [], c_body = ''y'', c_expiresAt = 2000\<rparr>)]
      = [(''k2'', \<lparr>c_status = 200, c_headers = [], c_body = ''y'', c_expiresAt = 2000\<rparr>)]"
  using sweep_exact_and_idempotent
    [of 1000 "[(''a'', \<lparr>count = 3, expiresAt = 500\<rparr>), (''b'', \<lparr>count = 1, expiresAt = 1000\<rparr>),
         (''c'', \<lparr>count = 2, expiresAt = 1001\<rparr>)]"
        "[(''k1'', \<lparr>c_status = 201, c_headers = [], c_body = ''x'', c_expiresAt = 999\<rparr>),
         (''k2'', \<lparr>c_status = 200, c_headers = [], c_body = ''y'', c_expiresAt = 2000\<rparr>)]"]
  by (simp add: map_keys_def)

lemma sweep_rl_all_fresh:
  assumes "\<forall>(k, e) \<in> set store. now < expiresAt e"
  shows "cleanupRateLimitCache now store = store"
  unfolding cleanupRateLimitCache_def
  by (rule sweep_rl_noop_aux) (use assms in \<open>auto dest: map_get_in_set\<close>)

lemma sweep_idem_all_fresh:
  assumes "\<forall>(k, c) \<in> set cache. now < c_expiresAt c"
  shows "cleanupIdempotencyCache now cache = cache"
  unfolding cleanupIdempotencyCache_def
  by (rule sweep_idem_noop_aux) (use assms in \<open>auto dest: map_get_in_set\<close>)

text \<open>
  Claim C7: \<^verbatim>\<open>cleanupExpiredEntries\<close> sweeps both caches at the monotonic reading
  \<^verbatim>\<open>hrtime.bigint() / 1000000n\<close>, while the entries carry expiry times computed from
  \<^verbatim>\<open>Date.now()\<close>. When every entry's \<open>expiresAt\<close> exceeds the monotonic reading, both
  caches come back unchanged, whatever \<^verbatim>\<open>Date.now()\<close> reads: entries that are already
  expired in epoch time stay.
\<close>

theorem cleanupExpiredEntries_monotonic_clock:
  assumes "\<forall>(k, e) \<in> set store. int (hrtime_bigint clk div 1000000) < expiresAt e"
    and "\<forall>(k, c) \<in> set cache. int (hrtime_bigint clk div 1000000) < c_expiresAt c"
  shows "cleanupExpiredEntries clk (store, cache) = (store, cache)"
  using sweep_rl_all_fresh [OF assms(1)] sweep_idem_all_fresh [OF assms(2)]
  by (simp add: cleanupExpiredEntries_def)

theorem cleanupExpiredEntries_monotonic_clock_witness:
  "expiresAt \<lparr>count = 10, expiresAt = 1600000060000\<rparr>
     \<le> Date_now \<lparr>Date_now = 1700000000000, hrtime_bigint = 5000000000\<rparr>
   \<and> c_expiresAt \<lparr>c_status = 201, c_headers = [], c_body = ''x'', c_expiresAt = 1600000300000\<rparr>
     \<le> Date_now \<lparr>Date_now = 1700000000000, hrtime_bigint = 5000000000\<rparr>
   \<and> cleanupExpiredEntries \<lparr>Date_now = 1700000000000, hrtime_bigint = 5000000000\<rparr>
        ([(''10.0.0.1'', \<lparr>count = 10, expiresAt = 1600000060000\<rparr>)],
         [(''k1'', \<lparr>c_status = 201, c_headers = [], c_body = ''x'', c_expiresAt = 1600000300000\<rparr>)])
      = ([(''10.0.0.1'', \<lparr>count = 10, expiresAt = 1600000060000\<rparr>)],
         [(''k1'', \<lparr>c_status = 201, c_headers = [], c_body = ''x'', c_expiresAt = 1600000300000\<rparr>)])"
  using cleanupExpiredEntries_monotonic_clock
    [of "[(''10.0.0.1'', \<lparr>count = 10, expiresAt = 1600000060000\<rparr>)]"
        "\<lparr>Date_now = 1700000000000, hrtime_bigint = 5000000000\<rparr>"
        "[(''k1'', \<lparr>c_status = 201, c_headers = [], c_body = ''x'', c_expiresAt = 1600000300000\<rparr>)]"]
  by simp














lemma catch_block_Continue:
  "catch_block method url options a t = Continue le ms \<Longrightarrow>
     ms = retryDelay_of options * a \<and> a < maxAttempts_of method options"
  by (auto simp: catch_block_def Let_def split: thrown.splits if_splits)

lemma attempt_step_Continue:
  "attempt_step method url options net a = Continue le ms \<Longrightarrow>
     ms = retryDelay_of options * a \<and> a < maxAttempts_of method options"
  by (auto simp: attempt_step_def Let_def
      split: fetch_outcome.splits sum.splits if_splits dest: catch_block_Continue)

lemma await_fetch_serialises:
  "(\<forall>e. opt_body options \<noteq> Some (Inl e)) \<Longrightarrow>
     await_fetch options net a = ([Fetch a], net a)"
  by (auto simp: await_fetch_def split: option.splits sum.splits)


lemma loop_from:
  assumes "s \<le> a" and "a \<le> m"
    and "\<forall>i. s \<le> i \<and> i < a \<longrightarrow> retried (attempt_step method url options net i)"
    and "attempt_step method url options net a = Done r"
  shows "attempts_loop method url options net [s..m] le =
           (concat (map (\<lambda>i. fst (await_fetch options net i)
                                @ [Sleep (retryDelay_of options * i)]) [s..a - 1])
              @ fst (await_fetch options net a), r)"
  using assms(1,3)
proof (induction "nat (a - s)" arbitrary: s le)
  case 0
  then have "s = a" by simp
  then show ?case
    using assms(2,4) by (simp add: upto_rec1 [of a m])
next
  case (Suc n)
  then have lt: "s < a" by linarith
  then have "retried (attempt_step method url options net s)"
    using Suc.prems(2) by simp
  then obtain le' ms where st: "attempt_step method url options net s = Continue le' ms"
    by (cases "attempt_step method url options net s") auto
  then have ms: "ms = retryDelay_of options * s"
    by (simp add: attempt_step_Continue)
  have ih: "attempts_loop method url options net [s + 1..m] le' =
           (concat (map (\<lambda>i. fst (await_fetch options net i)
                                @ [Sleep (retryDelay_of options * i)]) [s + 1..a - 1])
              @ fst (await_fetch options net a), r)"
    by (rule Suc.hyps(1)) (use Suc.hyps(2) Suc.prems lt in auto)
  have l: "[s..m] = s # [s + 1..m]"
    using lt assms(2) by (simp add: upto_rec1)
  have l': "[s..a - 1] = s # [s + 1..a - 1]"
    using lt by (simp add: upto_rec1)
  show ?case
    by (simp add: l l' st ih ms)
qed


lemma trace_serialises:
  assumes "\<forall>e. opt_body options \<noteq> Some (Inl e)"
  shows "concat (map (\<lambda>i. fst (await_fetch options net i) @ [Sleep (d * i)]) xs)
           @ fst (await_fetch options net k)
         = concat (map (\<lambda>i. [Fetch i, Sleep (d * i)]) xs) @ [Fetch k]"
  by (induction xs) (simp_all add: await_fetch_serialises [OF assms])




lemma httpRequest_reaches:
  assumes "1 \<le> a" and "a \<le> maxAttempts_of method options"
    and "\<forall>i. 1 \<le> i \<and> i < a \<longrightarrow> retried (attempt_step method url options net i)"
    and "attempt_step method url options net a = Done r"
  shows "snd (httpRequest method url options net) = r"
    and "(\<forall>e. opt_body options \<noteq> Some (Inl e)) \<Longrightarrow>
           fst (httpRequest method url options net)
             = backoff_schedule (retryDelay_of options) a"
  using loop_from [OF assms] assms(1)
  by (simp_all add: httpRequest_def backoff_schedule_def trace_serialises)



lemma http_options_unfold:
  "retries_of options = (case opt_retries options of Some r \<Rightarrow> r | None \<Rightarrow> 2)"
  "retryDelay_of options = (case opt_retryDelay options of Some d \<Rightarrow> d | None \<Rightarrow> 1000)"
  "isRetryableMethod method = (toUpperCase method \<in> set [''GET'', ''HEAD'', ''OPTIONS''])"
  "maxAttempts_of method options =
     (if toUpperCase method \<in> set [''GET'', ''HEAD'', ''OPTIONS'']
      then (case opt_retries options of Some r \<Rightarrow> r | None \<Rightarrow> 2) + 1 else 1)"
  by (simp_all add: retries_of_def retryDelay_of_def isRetryableMethod_def maxAttempts_of_def
      shouldRetry_of_def DEFAULT_RETRIES_def DEFAULT_RETRY_DELAY_def split: option.splits)

lemma isRetryableError_unfold:
  "isRetryableError e =
     (err_code e = Some ''ECONNREFUSED'' \<or> err_code e = Some ''ENOTFOUND''
      \<or> err_code e = Some ''ETIMEDOUT'' \<or> err_name e = Some ''AbortError''
      \<or> (\<exists>s. err_status e = Some s \<and> 500 \<le> s \<and> s \<noteq> 501))"
  by (auto simp: isRetryableError_def split: option.splits)

lemma upper_GET: "toUpperCase ''GET'' \<in> set [''GET'', ''HEAD'', ''OPTIONS'']"
  by (simp add: toUpperCase_def upper_char_def)

lemma retryable_GET: "isRetryableMethod ''GET''"
  by (simp add: isRetryableMethod_def toUpperCase_def upper_char_def)




lemma step_exception:
  assumes "snd (await_fetch options net a) = Rejects e
           \<or> (\<exists>r. snd (await_fetch options net a) = Resolves r \<and> read_body r = Inl e)"
    and "\<not> (isRetryableMethod method \<and> a < maxAttempts_of method options
             \<and> isRetryableError e)"
  shows "attempt_step method url options net a =
           Done (if err_code e = Some ''ECONNREFUSED'' \<or> err_code e = Some ''ENOTFOUND''
                    \<or> err_name e = Some ''AbortError''
                 then Raised (AppErr \<lparr>code = INTERNAL_ERROR,
                        message = ''Service unavailable or timed out'', status = 503,
                        details = Some (UrlOriginalError url
                           (case err_message e of Some m \<Rightarrow> m | None \<Rightarrow> ''Unknown error''))\<rparr>)
                 else Raised (JsErr e))"
  using assms
  by (auto simp: attempt_step_def catch_block_def shouldRetry_of_def new_AppError_def)






text \<open>
  Claim C3 as stated fails for a timeout reported by the socket: an exception with code
  \<^verbatim>\<open>ETIMEDOUT\<close> that is not retried (here the method is POST) is raised as it is, not as
  the AppError with status 503. The classification at lines 147-151 lists
  \<^verbatim>\<open>ECONNREFUSED\<close>, \<^verbatim>\<open>ENOTFOUND\<close> and \<^verbatim>\<open>AbortError\<close> only.
\<close>

theorem httpRequest_timedout_not_classified:
  "httpRequest ''POST'' ''http://svc/users''
     \<lparr>opt_timeout = None, opt_retries = None, opt_retryDelay = None, opt_body = None\<rparr>
     net_timedout
   = ([Fetch 1], Raised (JsErr err_timedout))"
  by (simp add: httpRequest_def maxAttempts_of_def shouldRetry_of_def isRetryableMethod_def
      toUpperCase_def upper_char_def attempt_step_def await_fetch_def net_timedout_def
      catch_block_def isRetryableError_def err_timedout_def)

text \<open>
  Claim C3, amended: when the attempt \<open>a\<close> the call has reached ends in an exception \<open>e\<close>
  (from evaluating the arguments, from \<^verbatim>\<open>fetch\<close> or from reading the body) that is not
  retried, because the method is none of GET, HEAD, OPTIONS, or \<open>a\<close> is the last attempt, or
  \<open>e\<close> is of no retryable class, then: if \<open>e\<close> has code \<^verbatim>\<open>ECONNREFUSED\<close> or
  \<^verbatim>\<open>ENOTFOUND\<close>, or name \<^verbatim>\<open>AbortError\<close> (the abort by which the client's timeout ends a
  call), the call raises the AppError with code INTERNAL_ERROR, status 503 and the message of
  \<open>e\<close> in its details; every other exception, one with code \<^verbatim>\<open>ETIMEDOUT\<close> included, is
  raised as it is.
\<close>

theorem httpRequest_exception_classified:
  assumes "retries = (case opt_retries options of Some r \<Rightarrow> r | None \<Rightarrow> 2)"
    and "delay = (case opt_retryDelay options of Some d \<Rightarrow> d | None \<Rightarrow> 1000)"
    and "maxAttempts = (if toUpperCase method \<in> set [''GET'', ''HEAD'', ''OPTIONS'']
                        then retries + 1 else 1)"
    and "1 \<le> a" and "a \<le> maxAttempts"
    and "\<forall>i. 1 \<le> i \<and> i < a \<longrightarrow> retried (attempt_step method url options net i)"
    and "snd (await_fetch options net a) = Rejects e
         \<or> (\<exists>response. snd (await_fetch options net a) = Resolves response
                \<and> read_body response = Inl e)"
    and "toUpperCase method \<notin> set [''GET'', ''HEAD'', ''OPTIONS'']
         \<or> a = maxAttempts
         \<or> \<not> (err_code e = Some ''ECONNREFUSED'' \<or> err_code e = Some ''ENOTFOUND''
               \<or> err_code e = Some ''ETIMEDOUT'' \<or> err_name e = Some ''AbortError''
               \<or> (\<exists>s. err_status e = Some s \<and> 500 \<le> s \<and> s \<noteq> 501))"
  shows "snd (httpRequest method url options net) =
           (if err_code e = Some ''ECONNREFUSED'' \<or> err_code e = Some ''ENOTFOUND''
               \<or> err_name e = Some ''AbortError''
            then Raised (AppErr \<lparr>code = INTERNAL_ERROR,
                   message = ''Service unavailable or timed out'', status = 503,
                   details = Some (UrlOriginalError url
                      (case err_message e of Some m \<Rightarrow> m | None \<Rightarrow> ''Unknown error''))\<rparr>)
            else Raised (JsErr e))
         \<and> ((\<forall>e'. opt_body options \<noteq> Some (Inl e')) \<longrightarrow>
              fst (httpRequest method url options net) = backoff_schedule delay a)"
proof -
  have d: "delay = retryDelay_of options"
    and m: "maxAttempts = maxAttempts_of method options"
    using assms(1,2,3) by (simp_all add: http_options_unfold)
  have b: "a \<le> maxAttempts_of method options" using assms(5) m by simp
  have nr: "\<not> (isRetryableMethod method \<and> a < maxAttempts_of method options
               \<and> isRetryableError e)"
    using assms(8) m by (auto simp: http_options_unfold(3) isRetryableError_unfold)
  note st = step_exception [where net = net and a = a, OF assms(7) nr]
  show ?thesis
    using httpRequest_reaches(1) [OF assms(4) b assms(6) st]
      httpRequest_reaches(2) [OF assms(4) b assms(6) st]
    by (simp add: d)
qed





lemma upper_DELETE: "toUpperCase ''DELETE'' \<notin> set [''GET'', ''HEAD'', ''OPTIONS'']"
  by (simp add: toUpperCase_def upper_char_def)

lemma upper_GET_eq: "toUpperCase ''GET'' = ''GET''"
  by (simp add: toUpperCase_def upper_char_def)





theorem httpRequest_exception_classified_witness:
  "httpRequest ''GET'' ''http://svc/users''
     \<lparr>opt_timeout = None, opt_retries = None, opt_retryDelay = None, opt_body = None\<rparr>
     net_refused
   = ([Fetch 1, Sleep 1000, Fetch 2, Sleep 2000, Fetch 3],
      Raised (AppErr \<lparr>code = INTERNAL_ERROR, message = ''Service unavailable or timed out'',
        status = 503,
        details = Some (UrlOriginalError ''http://svc/users''
                          ''connect ECONNREFUSED 127.0.0.1:8080'')\<rparr>))"
proof -
  let ?o = "\<lparr>opt_timeout = None, opt_retries = None, opt_retryDelay = None,
             opt_body = None\<rparr> :: string HttpClientOptions"
  have m: "maxAttempts_of ''GET'' ?o = 3"
    using upper_GET by (simp add: http_options_unfold)
  have re: "isRetryableError err_refused"
    by (simp add: isRetryableError_def err_refused_def)
  have st: "retried (attempt_step ''GET'' ''http://svc/users'' ?o net_refused i)" if "i < 3" for i
    using that retryable_GET re
    by (simp add: attempt_step_def await_fetch_def net_refused_def catch_block_def
        shouldRetry_of_def m)
  have before: "\<forall>i. 1 \<le> i \<and> i < 3 \<longrightarrow>
                  retried (attempt_step ''GET'' ''http://svc/users'' ?o net_refused i)"
    using st by blast
  have exn: "snd (await_fetch ?o net_refused 3) = Rejects err_refused
             \<or> (\<exists>response. snd (await_fetch ?o net_refused 3) = Resolves response
                    \<and> read_body response = Inl err_refused)"
    by (simp add: await_fetch_def net_refused_def)
  note t = httpRequest_exception_classified
    [of 2 ?o 1000 3 "''GET''" 3 "''http://svc/users''" net_refused err_refused,
     OF _ _ _ _ _ before exn]
  have "snd (httpRequest ''GET'' ''http://svc/users'' ?o net_refused) =
            Raised (AppErr \<lparr>code = INTERNAL_ERROR,
              message = ''Service unavailable or timed out'', status = 503,
              details = Some (UrlOriginalError ''http://svc/users''
                                ''connect ECONNREFUSED 127.0.0.1:8080'')\<rparr>)
         \<and> fst (httpRequest ''GET'' ''http://svc/users'' ?o net_refused)
             = backoff_schedule 1000 3"
    using t by (simp add: upper_GET_eq err_refused_def)
  then show ?thesis
    by (simp add: prod_eq_iff backoff_schedule_def upto_rec1)
qed

end
